theory Spec2Isabelle
  imports Main "HOL-Library.Sublist" "HOL-Library.AList" "HOL-Library.Char_ord" "HOL-Library.List_Lexorder"
begin

section \<open>The declaration linker of the Acode plugin types\<close>

text \<open>
  The repository holds ambient type declarations and one build script (the generator,
  \<^verbatim>\<open>src/unnamed/part_000\<close>). The script walks the directory \<^verbatim>\<open>src\<close>, writes an
  \<^verbatim>\<open>index.d.ts\<close> of reference lines into every directory, collects the names of the
  interfaces and types declared in files that mention the namespace \<^verbatim>\<open>Acode\<close>, and
  writes the root \<^verbatim>\<open>index.d.ts\<close> that re-exports them from the module \<^verbatim>\<open>acode\<close>.

  Texts (file names, file contents, generated artifacts) are \<^typ>\<open>string\<close>s: sequences of
  code units below 256. The character classes of the script's regular expression are
  given for that range; the white space and the line separators of ECMAScript above it
  (such as U+2028 or U+FEFF) are outside of the model. The tree is the one the script
  finds: every entry can be read, and no link leads back up. The three lines that the
  script prints when it is done are left out.
\<close>

subsection \<open>Texts\<close>

definition NL :: char where
  "NL = CHR 0x0A"

definition TAB :: char where
  "TAB = CHR 0x09"

definition QUOTE :: char where
  "QUOTE = CHR 0x22"

text \<open>\<^verbatim>\<open>content.includes(m)\<close>: \<^term>\<open>m\<close> occurs in \<^term>\<open>content\<close> as a contiguous run.\<close>

definition includes_text :: "string \<Rightarrow> string \<Rightarrow> bool" where
  "includes_text content m \<longleftrightarrow> sublist m content"

text \<open>\<^verbatim>\<open>refs.join("\n")\<close>.\<close>

fun join :: "string list \<Rightarrow> string" where
  "join [] = []"
| "join [x] = x"
| "join (x # y # ys) = x @ NL # join (y # ys)"

subsection \<open>The regular expression \<^verbatim>\<open>/^\t(interface|type)\s+(\w+)/gm\<close>\<close>

text \<open>
  \<^verbatim>\<open>\s\<close> is the white space and the line terminators of ECMAScript: tab, line feed,
  vertical tab, form feed, carriage return, space and the no-break space.
\<close>

definition is_space :: "char \<Rightarrow> bool" where
  "is_space c \<longleftrightarrow> c \<in> set [CHR 0x09, CHR 0x0A, CHR 0x0B, CHR 0x0C, CHR 0x0D, CHR 0x20, CHR 0xA0]"

text \<open>\<^verbatim>\<open>\w\<close> is \<^verbatim>\<open>[A-Za-z0-9_]\<close>.\<close>

definition is_word :: "char \<Rightarrow> bool" where
  "is_word c \<longleftrightarrow>
     (let n = (of_char c :: nat)
      in (65 \<le> n \<and> n \<le> 90) \<or> (97 \<le> n \<and> n \<le> 122) \<or> (48 \<le> n \<and> n \<le> 57) \<or> n = 95)"

text \<open>With the flag \<^verbatim>\<open>m\<close>, \<^verbatim>\<open>^\<close> holds at the start of the text and after a line terminator.\<close>

definition is_line_terminator :: "char \<Rightarrow> bool" where
  "is_line_terminator c \<longleftrightarrow> c = CHR 0x0A \<or> c = CHR 0x0D"

text \<open>The alternation \<^verbatim>\<open>(interface|type)\<close> at the head of a text: what follows the keyword.\<close>

definition keyword :: "string \<Rightarrow> string option" where
  "keyword s =
     (if prefix ''interface'' s then Some (drop 9 s)
      else if prefix ''type'' s then Some (drop 4 s)
      else None)"

text \<open>
  One attempt of \<^verbatim>\<open>\t(interface|type)\s+(\w+)\<close> at the head of a text. Both \<^verbatim>\<open>\s+\<close>
  and \<^verbatim>\<open>\w+\<close> are greedy, and no shorter run of white space can be followed by a word
  character, so the attempt has one outcome: the second group and the text after the
  match.
\<close>

definition match_here :: "string \<Rightarrow> (string \<times> string) option" where
  "match_here s =
     (case s of
        [] \<Rightarrow> None
      | c # s1 \<Rightarrow>
          if c \<noteq> TAB then None
          else (case keyword s1 of
                  None \<Rightarrow> None
                | Some s2 \<Rightarrow>
                    let s3 = dropWhile is_space s2;
                        name = takeWhile is_word s3
                    in if s3 = s2 \<or> name = [] then None
                       else Some (name, dropWhile is_word s3)))"

text \<open>
  \<^verbatim>\<open>content.matchAll(re)\<close>, read for the second group of every match. The search goes
  from left to right; \<^term>\<open>b\<close> says whether \<^verbatim>\<open>^\<close> holds at the current position. After a
  match the search goes on behind it, where the character before is a word character,
  so \<^verbatim>\<open>^\<close> does not hold there.
\<close>

function matchAll :: "bool \<Rightarrow> string \<Rightarrow> string list" where
  "matchAll b [] = []"
| "matchAll b (c # cs) =
     (case (if b then match_here (c # cs) else None) of
        Some (name, rest) \<Rightarrow> name # matchAll False rest
      | None \<Rightarrow> matchAll (is_line_terminator c) cs)"
  by pat_completeness auto
termination
proof (relation "measure (\<lambda>(b, s). length s)", goal_cases)
  case 1
  show ?case by simp
next
  case (2 b c cs)
  show ?case by simp
next
  case (3 b c cs x2 name rest)
  have drop2: "length (dropWhile is_word (dropWhile is_space s)) \<le> length s" for s
    by (rule order_trans [OF length_dropWhile_le length_dropWhile_le])
  from 3 have "length rest \<le> length cs"
    by (auto simp: match_here_def keyword_def Let_def
          intro: order_trans [OF drop2]
          split: if_splits list.splits option.splits)
  then show ?case by simp
qed

text \<open>
  A text that is a tab, one of the two keywords and nothing but white space: an attempt
  at its head finds no name in it and goes on into what follows.
\<close>

definition bare_keyword :: "string \<Rightarrow> bool" where
  "bare_keyword s \<longleftrightarrow>
     (case s of
        [] \<Rightarrow> False
      | c # s1 \<Rightarrow> c = TAB \<and> (case keyword s1 of None \<Rightarrow> False | Some s2 \<Rightarrow> list_all is_space s2))"

text \<open>
  The search over a text, told as \<^verbatim>\<open>matchAll\<close> tells it, for whether it comes to the end
  of the text inside an attempt: it makes an attempt where the rest of the text is such
  a tab, keyword and white space. An attempt inside an earlier match is not made.
\<close>

function pending :: "bool \<Rightarrow> string \<Rightarrow> bool" where
  "pending b [] = False"
| "pending b (c # cs) =
     (case (if b then match_here (c # cs) else None) of
        Some (name, rest) \<Rightarrow> pending False rest
      | None \<Rightarrow> (b \<and> bare_keyword (c # cs)) \<or> pending (is_line_terminator c) cs)"
  by pat_completeness auto
termination
proof (relation "measure (\<lambda>(b, s). length s)", goal_cases)
  case 1
  show ?case by simp
next
  case (2 b c cs)
  show ?case by simp
next
  case (3 b c cs x2 name rest)
  have drop2: "length (dropWhile is_word (dropWhile is_space s)) \<le> length s" for s
    by (rule order_trans [OF length_dropWhile_le length_dropWhile_le])
  from 3 have "length rest \<le> length cs"
    by (auto simp: match_here_def keyword_def Let_def
          intro: order_trans [OF drop2]
          split: if_splits list.splits option.splits)
  then show ?case by simp
qed

subsection \<open>The collected names\<close>

text \<open>
  \<^verbatim>\<open>collectedTypes\<close> is a \<^verbatim>\<open>Set\<close>: it keeps its elements in the order of their first
  insertion, each once.
\<close>

definition add :: "string \<Rightarrow> string list \<Rightarrow> string list" where
  "add x collectedTypes = (if x \<in> set collectedTypes then collectedTypes else collectedTypes @ [x])"

definition extractTypesFromNamespace :: "string \<Rightarrow> string list \<Rightarrow> string list" where
  "extractTypesFromNamespace content collectedTypes =
     foldl (\<lambda>collected name. add name collected) collectedTypes (matchAll True content)"

text \<open>The test that decides whether a file is scanned for names.\<close>

definition has_marker :: "string \<Rightarrow> bool" where
  "has_marker content \<longleftrightarrow>
     includes_text content ''declare namespace Acode'' \<or> includes_text content ''namespace Acode''"

subsection \<open>The file system\<close>

text \<open>
  A directory is the list of its entries in the order in which \<^verbatim>\<open>readdirSync\<close> lists
  them; \<^verbatim>\<open>statSync(...).isDirectory()\<close> tells the two kinds of node apart.
\<close>

datatype node = File string | Dir "(string \<times> node) list"

datatype error = ENOENT | ENOTDIR | EISDIR

text \<open>
  \<^verbatim>\<open>writeFileSync(join(path, name), data)\<close> in the directory at \<^verbatim>\<open>path\<close>: a file of
  that name is overwritten where it stands, a missing one is created, and a directory of
  that name makes the call fail. Where a new entry appears in the listing is up to the
  file system: \<^term>\<open>place name es\<close> is the position it gives to the new name, and it is
  a parameter of everything that writes.
\<close>

type_synonym placement = "string \<Rightarrow> (string \<times> node) list \<Rightarrow> nat"

definition writeFileSync ::
  "placement \<Rightarrow> (string \<times> node) list \<Rightarrow> string \<Rightarrow> string \<Rightarrow> error + (string \<times> node) list" where
  "writeFileSync place es name data =
     (case map_of es name of
        Some (Dir sub) \<Rightarrow> Inl EISDIR
      | Some (File old) \<Rightarrow> Inr (AList.update name (File data) es)
      | None \<Rightarrow> Inr (take (place name es) es @ (name, File data) # drop (place name es) es))"

text \<open>A file system that lists the names of a directory in their order.\<close>

definition by_name :: placement where
  "by_name name es = length (takeWhile (\<lambda>e. fst e < name) es)"

subsection \<open>The tree linker\<close>

definition subdir_ref :: "string \<Rightarrow> string" where
  "subdir_ref p = ''/// <reference path='' @ QUOTE # ''./'' @ p @ ''/index.d.ts'' @ QUOTE # '' />''"

definition file_ref :: "string \<Rightarrow> string" where
  "file_ref p = ''/// <reference path='' @ QUOTE # ''./'' @ p @ QUOTE # '' />''"

text \<open>
  \<^verbatim>\<open>linkTypes(path)\<close> on the directory at \<^verbatim>\<open>path\<close>, with the set of collected names
  passed through, on a file system that places new entries by \<^term>\<open>place\<close>. The result is the directory after the run and the set after the run.
  \<^verbatim>\<open>forEntries\<close> is the loop over the listing, with \<^verbatim>\<open>refs\<close> as it stands.
\<close>

function (sequential) linkTypes :: "placement \<Rightarrow> node \<Rightarrow> string list \<Rightarrow> error + node \<times> string list"
  and forEntries :: "placement \<Rightarrow> (string \<times> node) list \<Rightarrow> string list \<Rightarrow> string list
        \<Rightarrow> error + (string \<times> node) list \<times> string list \<times> string list" where
  "linkTypes place (File content) collectedTypes = Inl ENOTDIR"
| "linkTypes place (Dir es) collectedTypes =
     (case forEntries place es [] collectedTypes of
        Inl e \<Rightarrow> Inl e
      | Inr (es', refs, collected) \<Rightarrow>
          (case writeFileSync place es' ''index.d.ts'' (join refs @ [NL]) of
             Inl e \<Rightarrow> Inl e
           | Inr es'' \<Rightarrow> Inr (Dir es'', collected)))"
| "forEntries place [] refs collectedTypes = Inr ([], refs, collectedTypes)"
| "forEntries place ((p, Dir sub) # es) refs collectedTypes =
     (case linkTypes place (Dir sub) collectedTypes of
        Inl e \<Rightarrow> Inl e
      | Inr (n', collected) \<Rightarrow>
          (case forEntries place es (refs @ [subdir_ref p]) collected of
             Inl e \<Rightarrow> Inl e
           | Inr (es', refs', collected') \<Rightarrow> Inr ((p, n') # es', refs', collected')))"
| "forEntries place ((p, File content) # es) refs collectedTypes =
     (if p \<noteq> ''index.d.ts'' \<and> p \<noteq> ''test.ts'' then
        (case forEntries place es (refs @ [file_ref p])
                (if has_marker content
                 then extractTypesFromNamespace content collectedTypes
                 else collectedTypes) of
           Inl e \<Rightarrow> Inl e
         | Inr (es', refs', collected') \<Rightarrow> Inr ((p, File content) # es', refs', collected'))
      else
        (case forEntries place es refs collectedTypes of
           Inl e \<Rightarrow> Inl e
         | Inr (es', refs', collected') \<Rightarrow> Inr ((p, File content) # es', refs', collected')))"
  by pat_completeness auto
termination
  by (relation "measure (\<lambda>x. case x of
          Inl (place, n, c) \<Rightarrow> Suc (2 * size n)
        | Inr (place, es, r, c) \<Rightarrow> 2 * size_list (size_prod (\<lambda>_. 0) size) es)")
     auto

text \<open>
  The content of the index that a directory holds, if it holds one as a file.
\<close>

fun generated_index :: "node \<Rightarrow> string option" where
  "generated_index (File content) = None"
| "generated_index (Dir es) =
     (case map_of es ''index.d.ts'' of Some (File content) \<Rightarrow> Some content | _ \<Rightarrow> None)"

text \<open>
  The reference line of an entry, and the entries that the loop passes over without a
  line: the files named \<^verbatim>\<open>index.d.ts\<close> or \<^verbatim>\<open>test.ts\<close>.
\<close>

fun entry_ref :: "string \<times> node \<Rightarrow> string" where
  "entry_ref (p, Dir sub) = subdir_ref p"
| "entry_ref (p, File content) = file_ref p"

fun skipped :: "string \<times> node \<Rightarrow> bool" where
  "skipped (p, Dir sub) = False"
| "skipped (p, File content) = (p = ''index.d.ts'' \<or> p = ''test.ts'')"

definition refs_of :: "(string \<times> node) list \<Rightarrow> string list" where
  "refs_of es = map entry_ref (filter (\<lambda>e. \<not> skipped e) es)"



text \<open>The contents of the files that a run reads, in the order of the walk.\<close>

function (sequential) scanned_files :: "node \<Rightarrow> string list"
  and scanned_entries :: "(string \<times> node) list \<Rightarrow> string list" where
  "scanned_files (File content) = []"
| "scanned_files (Dir es) = scanned_entries es"
| "scanned_entries [] = []"
| "scanned_entries ((p, Dir sub) # es) = scanned_files (Dir sub) @ scanned_entries es"
| "scanned_entries ((p, File content) # es) =
     (if p \<noteq> ''index.d.ts'' \<and> p \<noteq> ''test.ts'' then content # scanned_entries es
      else scanned_entries es)"
  by pat_completeness auto
termination
  by (relation "measure (\<lambda>x. case x of
          Inl n \<Rightarrow> Suc (2 * size n)
        | Inr es \<Rightarrow> 2 * size_list (size_prod (\<lambda>_. 0) size) es)")
     auto


text \<open>The text of the file that a path of names leads to.\<close>

fun content_at :: "node \<Rightarrow> string list \<Rightarrow> string option" where
  "content_at (File content) [] = Some content"
| "content_at (File content) (p # path) = None"
| "content_at (Dir es) [] = None"
| "content_at (Dir es) (p # path) = (case map_of es p of None \<Rightarrow> None | Some n \<Rightarrow> content_at n path)"


text \<open>The collected names that a run ends with.\<close>

fun collected_after :: "error + node \<times> string list \<Rightarrow> string list" where
  "collected_after (Inl e) = []"
| "collected_after (Inr (t, collected)) = collected"


subsection \<open>The root index\<close>

definition export_line :: "string \<Rightarrow> string" where
  "export_line t = TAB # ''export type '' @ t @ '' = Acode.'' @ t @ '';''"

definition sortedTypes :: "string list \<Rightarrow> string list" where
  "sortedTypes collectedTypes = sort collectedTypes"

definition generateModuleExports :: "string list \<Rightarrow> string" where
  "generateModuleExports collectedTypes =
     ''declare module '' @ QUOTE # ''acode'' @ QUOTE # '' {'' @ NL #
       join (map export_line (sortedTypes collectedTypes)) @ NL # ''}''"

definition rootRefs :: "string list" where
  "rootRefs =
     [''/// <reference path='' @ QUOTE # ''./src/index.d.ts'' @ QUOTE # '' />'',
      ''/// <reference path='' @ QUOTE # ''./types/ace/index.d.ts'' @ QUOTE # '' />'',
      ''/// <reference path='' @ QUOTE # ''./types/require.d.ts'' @ QUOTE # '' />'',
      ''/// <reference path='' @ QUOTE # ''./types/xterm.d.ts'' @ QUOTE # '' />'',
      ''/// <reference path='' @ QUOTE # ''./types/html-tag-js.d.ts'' @ QUOTE # '' />'']"

definition generateRootIndex :: "string list \<Rightarrow> string" where
  "generateRootIndex collectedTypes =
     join rootRefs @ NL # NL # generateModuleExports collectedTypes @ [NL]"

text \<open>
  The script, run in the directory that holds \<^verbatim>\<open>src\<close> and the root \<^verbatim>\<open>index.d.ts\<close>:
  \<^verbatim>\<open>linkTypes(BASE_DIR)\<close> from the empty set, then the root index is written.
\<close>

definition main :: "placement \<Rightarrow> (string \<times> node) list \<Rightarrow> error + (string \<times> node) list" where
  "main place root =
     (case map_of root ''src'' of
        None \<Rightarrow> Inl ENOENT
      | Some src \<Rightarrow>
          (case linkTypes place src [] of
             Inl e \<Rightarrow> Inl e
           | Inr (src', collected) \<Rightarrow>
               writeFileSync place (AList.update ''src'' src' root) ''index.d.ts''
                 (generateRootIndex collected)))"

section \<open>Properties\<close>

subsection \<open>The marker test\<close>

lemma includes_text_suffix: "includes_text content (a @ m) \<Longrightarrow> includes_text content m"
  unfolding includes_text_def sublist_def by (metis append.assoc)

text \<open>
  Claim C10. The test of the two markers decides as the test of \<^verbatim>\<open>namespace Acode\<close>
  alone does, on every text: the first marker ends with the second.
\<close>

theorem marker_test_single: "has_marker content \<longleftrightarrow> includes_text content ''namespace Acode''"
  unfolding has_marker_def
  using includes_text_suffix [of content "''declare ''" "''namespace Acode''"]
  by auto

subsection \<open>Writes\<close>

lemma map_of_insert:
  "map_of es name = None \<Longrightarrow>
   map_of (take k es @ (name, v) # drop k es) x = (if x = name then Some v else map_of es x)"
proof (induction es arbitrary: k)
  case Nil
  then show ?case by simp
next
  case (Cons e es)
  then show ?case
    by (cases k) (auto split: if_splits)
qed

lemma writeFileSync_map_of_eq:
  assumes "writeFileSync place es name data = Inr es'"
  shows "map_of es' x = (if x = name then Some (File data) else map_of es x)"
proof (cases "map_of es name")
  case None
  with assms have "es' = take (place name es) es @ (name, File data) # drop (place name es) es"
    by (simp add: writeFileSync_def)
  with map_of_insert [OF None] show ?thesis by simp
next
  case (Some n)
  with assms have "es' = AList.update name (File data) es"
    by (auto simp: writeFileSync_def split: node.splits)
  then show ?thesis by (simp add: update_conv')
qed

lemma writeFileSync_map_of:
  "writeFileSync place es name data = Inr es' \<Longrightarrow> map_of es' name = Some (File data)"
  by (simp add: writeFileSync_map_of_eq)

lemma writeFileSync_map_of_other:
  "writeFileSync place es name data = Inr es' \<Longrightarrow> k \<noteq> name \<Longrightarrow> map_of es' k = map_of es k"
  by (simp add: writeFileSync_map_of_eq)



lemma writeFileSync_not_Dir:
  "writeFileSync place es name data = Inr es' \<Longrightarrow> map_of es name \<noteq> Some (Dir sub)"
  by (auto simp: writeFileSync_def)

lemma writeFileSync_files:
  assumes "\<forall>e\<in>set es. skipped e"
  shows "\<exists>es'. writeFileSync place es name data = Inr es'"
proof (cases "map_of es name")
  case None
  then show ?thesis by (simp add: writeFileSync_def)
next
  case (Some n)
  then have "(name, n) \<in> set es" by (rule map_of_SomeD)
  with assms have "skipped (name, n)" by blast
  then obtain old where "n = File old" by (cases n) auto
  with Some show ?thesis by (simp add: writeFileSync_def)
qed

lemma writeFileSync_again:
  "writeFileSync place es name data = Inr es' \<Longrightarrow> writeFileSync place' es' name data = Inr es'"
proof -
  assume "writeFileSync place es name data = Inr es'"
  from writeFileSync_map_of [OF this] have "map_of es' name = Some (File data)" .
  then show ?thesis
    by (simp add: writeFileSync_def update_triv)
qed

subsection \<open>The index of a directory\<close>

lemma forEntries_refs:
  "forEntries place es refs st = Inr (es', refs', st') \<Longrightarrow> refs' = refs @ refs_of es"
proof (induction es arbitrary: refs st es' refs' st')
  case Nil
  then show ?case by (simp add: refs_of_def)
next
  case (Cons e es)
  obtain p n where e: "e = (p, n)" by (cases e)
  show ?case
  proof (cases n)
    case (File content)
    with Cons.prems e show ?thesis
      by (auto simp: refs_of_def split: if_splits sum.splits dest: Cons.IH)
  next
    case (Dir sub)
    with Cons.prems e obtain st1 es1
      where "forEntries place es (refs @ [subdir_ref p]) st1 = Inr (es1, refs', st')"
      by (auto split: sum.splits simp del: linkTypes.simps)
    from Cons.IH [OF this] show ?thesis
      using e Dir by (simp add: refs_of_def)
  qed
qed


lemma linkTypes_Dir: "linkTypes place t st = Inr (t', st') \<Longrightarrow> \<exists>es'. t' = Dir es'"
  by (cases t) (auto split: sum.splits)

lemma forEntries_map_of_Dir:
  "forEntries place es refs st = Inr (es', refs', st') \<Longrightarrow> map_of es p = Some (Dir sub) \<Longrightarrow>
   \<exists>st0 st1 sub'. linkTypes place (Dir sub) st0 = Inr (Dir sub', st1) \<and> map_of es' p = Some (Dir sub')"
proof (induction es arbitrary: refs st es' refs' st')
  case Nil
  then show ?case by simp
next
  case (Cons e es)
  obtain q n where e: "e = (q, n)" by (cases e)
  show ?case
  proof (cases n)
    case (File content)
    with Cons.prems e obtain refs1 st1 es1
      where f: "forEntries place es refs1 st1 = Inr (es1, refs', st')"
        and es': "es' = (q, File content) # es1"
        and "q \<noteq> p" "map_of es p = Some (Dir sub)"
      by (auto split: if_splits sum.splits)
    from Cons.IH [OF f this(4)] es' \<open>q \<noteq> p\<close> show ?thesis by auto
  next
    case (Dir sub0)
    with Cons.prems(1) e obtain st1 es1 n'
      where l: "linkTypes place (Dir sub0) st = Inr (n', st1)"
        and f: "forEntries place es (refs @ [subdir_ref q]) st1 = Inr (es1, refs', st')"
        and es': "es' = (q, n') # es1"
      by (auto split: sum.splits simp del: linkTypes.simps)
    from linkTypes_Dir [OF l] obtain sub1 where n': "n' = Dir sub1" by blast
    show ?thesis
    proof (cases "q = p")
      case True
      with e Dir l n' es' Cons.prems(2) show ?thesis by auto
    next
      case False
      with Cons.prems(2) e have "map_of es p = Some (Dir sub)" by simp
      from Cons.IH [OF f this] es' False show ?thesis by auto
    qed
  qed
qed





lemma forEntries_skipped:
  "\<forall>e\<in>set es. skipped e \<Longrightarrow> forEntries place es refs st = Inr (es, refs, st)"
proof (induction es)
  case Nil
  then show ?case by simp
next
  case (Cons e es)
  then show ?case by (cases e rule: skipped.cases) auto
qed

text \<open>
  Claim C8. A directory with no entry, or with no entry but files named \<^verbatim>\<open>index.d.ts\<close>
  or \<^verbatim>\<open>test.ts\<close>, gets its index all the same, and the index is one line feed. The
  run returns, and the set of collected names is as it was.
\<close>

theorem empty_directory_index:
  assumes "\<forall>e\<in>set es. skipped e"
  shows "\<exists>es'. linkTypes place (Dir es) st = Inr (Dir es', st) \<and> generated_index (Dir es') = Some [NL]"
proof -
  from writeFileSync_files [OF assms]
  obtain es' where w: "writeFileSync place es ''index.d.ts'' [NL] = Inr es'"
    by blast
  then have "linkTypes place (Dir es) st = Inr (Dir es', st)"
    by (simp add: forEntries_skipped [OF assms])
  moreover from writeFileSync_map_of [OF w] have "generated_index (Dir es') = Some [NL]"
    by simp
  ultimately show ?thesis by blast
qed

theorem empty_directory_index_witness:
  "skipped (''test.ts'', File ''x'')
   \<and> (\<exists>es'. linkTypes by_name (Dir [(''test.ts'', File ''x'')]) [] = Inr (Dir es', [])
         \<and> generated_index (Dir es') = Some [NL])"
  using empty_directory_index [where es = "[(''test.ts'', File ''x'')]" and place = by_name and st = "[]"]
  by simp

subsection \<open>Directories with a reserved name\<close>

lemma forEntries_names:
  "forEntries place es refs st = Inr (es', refs', st') \<Longrightarrow> map fst es' = map fst es"
proof (induction es arbitrary: refs st es' refs' st')
  case Nil
  then show ?case by simp
next
  case (Cons e es)
  obtain p n where e: "e = (p, n)" by (cases e)
  show ?case
  proof (cases n)
    case (File content)
    with Cons.prems e show ?thesis
      by (auto split: if_splits sum.splits dest: Cons.IH)
  next
    case (Dir sub)
    with Cons.prems e obtain st1 es1 n'
      where "forEntries place es (refs @ [subdir_ref p]) st1 = Inr (es1, refs', st')" "es' = (p, n') # es1"
      by (auto split: sum.splits simp del: linkTypes.simps)
    with Cons.IH [OF this(1)] show ?thesis
      using e by simp
  qed
qed






subsection \<open>The placement of new entries\<close>

lemma forEntries_map_of_File:
  "forEntries place es refs st = Inr (es', refs', st') \<Longrightarrow> map_of es k = Some (File c) \<Longrightarrow>
   map_of es' k = Some (File c)"
proof (induction es arbitrary: refs st es' refs' st')
  case Nil
  then show ?case by simp
next
  case (Cons e es)
  obtain q n where e: "e = (q, n)" by (cases e)
  show ?case
  proof (cases n)
    case (File content)
    with Cons.prems e obtain refs1 st1 es1
      where f: "forEntries place es refs1 st1 = Inr (es1, refs', st')"
        and es': "es' = (q, File content) # es1"
      by (auto split: if_splits sum.splits)
    show ?thesis
    proof (cases "q = k")
      case True
      with Cons.prems(2) e File es' show ?thesis by simp
    next
      case False
      with Cons.prems(2) e have "map_of es k = Some (File c)" by simp
      from Cons.IH [OF f this] es' False show ?thesis by simp
    qed
  next
    case (Dir sub0)
    with Cons.prems(1) e obtain st1 es1 n'
      where f: "forEntries place es (refs @ [subdir_ref q]) st1 = Inr (es1, refs', st')"
        and es': "es' = (q, n') # es1"
      by (auto split: sum.splits simp del: linkTypes.simps)
    from Cons.prems(2) e Dir have q: "q \<noteq> k" and m: "map_of es k = Some (File c)"
      by (auto split: if_splits)
    from Cons.IH [OF f m] es' q show ?thesis by simp
  qed
qed

lemma forEntries_map_of_None:
  "forEntries place es refs st = Inr (es', refs', st') \<Longrightarrow> map_of es k = None \<Longrightarrow> map_of es' k = None"
proof -
  assume f: "forEntries place es refs st = Inr (es', refs', st')" and n: "map_of es k = None"
  from forEntries_names [OF f] have "fst ` set es' = fst ` set es"
    by (metis list.set_map)
  with n show ?thesis
    by (simp add: map_of_eq_None_iff)
qed

lemma forEntries_map_of_kind:
  assumes f: "forEntries place es refs st = Inr (es', refs', st')"
  shows "(\<exists>sub. map_of es' k = Some (Dir sub)) \<longleftrightarrow> (\<exists>sub. map_of es k = Some (Dir sub))"
proof (cases "map_of es k")
  case None
  with forEntries_map_of_None [OF f None] show ?thesis by simp
next
  case (Some n)
  show ?thesis
  proof (cases n)
    case (File c)
    with Some forEntries_map_of_File [OF f, of k c] show ?thesis by simp
  next
    case (Dir sub)
    with Some forEntries_map_of_Dir [OF f, of k sub] show ?thesis by auto
  qed
qed

lemma writeFileSync_succeeds:
  "\<not> (\<exists>sub. map_of es name = Some (Dir sub)) \<Longrightarrow> \<exists>es'. writeFileSync place es name data = Inr es'"
  by (auto simp: writeFileSync_def split: option.splits node.splits)

lemma linkTypes_any_place:
  "linkTypes place t st = Inr (t1, s1) \<Longrightarrow> \<exists>t2. linkTypes place' t st = Inr (t2, s1)"
  and forEntries_any_place:
  "forEntries place es refs st = Inr (es1, refs1, s1) \<Longrightarrow>
   \<exists>es2. forEntries place' es refs st = Inr (es2, refs1, s1)"
proof (induction place t st and place es refs st arbitrary: t1 s1 and es1 refs1 s1
    rule: linkTypes_forEntries.induct)
  case (1 place content collectedTypes)
  then show ?case by simp
next
  case (2 place es collectedTypes)
  from "2.prems" obtain es1 refs es1'
    where f: "forEntries place es [] collectedTypes = Inr (es1, refs, s1)"
      and w: "writeFileSync place es1 ''index.d.ts'' (join refs @ [NL]) = Inr es1'"
    by (auto split: sum.splits)
  from "2.IH" [OF f] obtain es2
    where f2: "forEntries place' es [] collectedTypes = Inr (es2, refs, s1)"
    by blast
  from writeFileSync_not_Dir [OF w] forEntries_map_of_kind [OF f, of "''index.d.ts''"]
    forEntries_map_of_kind [OF f2, of "''index.d.ts''"]
  have "\<not> (\<exists>sub. map_of es2 ''index.d.ts'' = Some (Dir sub))"
    by blast
  from writeFileSync_succeeds [OF this] obtain es2'
    where "writeFileSync place' es2 ''index.d.ts'' (join refs @ [NL]) = Inr es2'"
    by blast
  with f2 show ?case by simp
next
  case (3 place refs collectedTypes)
  then show ?case by simp
next
  case (4 place p sub es refs collectedTypes)
  from "4.prems" obtain n' st1 es0
    where l: "linkTypes place (Dir sub) collectedTypes = Inr (n', st1)"
      and f: "forEntries place es (refs @ [subdir_ref p]) st1 = Inr (es0, refs1, s1)"
    by (auto split: sum.splits simp del: linkTypes.simps)
  from "4.IH"(1) [OF l] obtain n2
    where l2: "linkTypes place' (Dir sub) collectedTypes = Inr (n2, st1)"
    by blast
  from "4.IH"(2) [OF l refl f] obtain es2
    where "forEntries place' es (refs @ [subdir_ref p]) st1 = Inr (es2, refs1, s1)"
    by blast
  with l2 show ?case by (simp del: linkTypes.simps)
next
  case (5 place p content es refs collectedTypes)
  show ?case
  proof (cases "p \<noteq> ''index.d.ts'' \<and> p \<noteq> ''test.ts''")
    case True
    let ?st = "if has_marker content then extractTypesFromNamespace content collectedTypes
               else collectedTypes"
    from "5.prems" True obtain es0
      where f: "forEntries place es (refs @ [file_ref p]) ?st = Inr (es0, refs1, s1)"
      by (auto split: sum.splits)
    from "5.IH"(1) [OF True f] obtain es2
      where "forEntries place' es (refs @ [file_ref p]) ?st = Inr (es2, refs1, s1)"
      by blast
    with True show ?thesis by simp
  next
    case False
    with "5.prems" obtain es0
      where f: "forEntries place es refs collectedTypes = Inr (es0, refs1, s1)"
      by (auto split: sum.splits)
    from "5.IH"(2) [OF False f] obtain es2
      where "forEntries place' es refs collectedTypes = Inr (es2, refs1, s1)"
      by blast
    with False show ?thesis by auto
  qed
qed

lemma linkTypes_same_contents:
  "linkTypes place t st = Inr (t1, s1) \<Longrightarrow> linkTypes place' t st' = Inr (t2, s2) \<Longrightarrow>
   content_at t1 path = content_at t2 path"
proof (induction path arbitrary: t t1 t2 st st' s1 s2)
  case Nil
  from linkTypes_Dir [OF Nil(1)] linkTypes_Dir [OF Nil(2)] show ?case by auto
next
  case (Cons p path)
  from Cons.prems(1) obtain es where t: "t = Dir es" by (cases t) auto
  from Cons.prems(1) t obtain es1 refs1 es1'
    where f1: "forEntries place es [] st = Inr (es1, refs1, s1)"
      and w1: "writeFileSync place es1 ''index.d.ts'' (join refs1 @ [NL]) = Inr es1'"
      and t1: "t1 = Dir es1'"
    by (auto split: sum.splits)
  from Cons.prems(2) t obtain es2 refs2 es2'
    where f2: "forEntries place' es [] st' = Inr (es2, refs2, s2)"
      and w2: "writeFileSync place' es2 ''index.d.ts'' (join refs2 @ [NL]) = Inr es2'"
      and t2: "t2 = Dir es2'"
    by (auto split: sum.splits)
  from forEntries_refs [OF f1] forEntries_refs [OF f2] have refs: "refs1 = refs2" by simp
  show ?case
  proof (cases "p = ''index.d.ts''")
    case True
    with writeFileSync_map_of [OF w1] writeFileSync_map_of [OF w2] refs t1 t2
    show ?thesis by simp
  next
    case False
    note m1 = writeFileSync_map_of_other [OF w1 False]
    note m2 = writeFileSync_map_of_other [OF w2 False]
    show ?thesis
    proof (cases "map_of es p")
      case None
      with forEntries_map_of_None [OF f1 None] forEntries_map_of_None [OF f2 None] m1 m2 t1 t2
      show ?thesis by simp
    next
      case (Some n)
      show ?thesis
      proof (cases n)
        case (File c)
        with Some forEntries_map_of_File [OF f1, of p c] forEntries_map_of_File [OF f2, of p c]
          m1 m2 t1 t2
        show ?thesis by simp
      next
        case (Dir sub)
        with Some forEntries_map_of_Dir [OF f1, of p sub] obtain a1 b1 sub1
          where l1: "linkTypes place (Dir sub) a1 = Inr (Dir sub1, b1)"
            and e1: "map_of es1 p = Some (Dir sub1)"
          by blast
        from Dir Some forEntries_map_of_Dir [OF f2, of p sub] obtain a2 b2 sub2
          where l2: "linkTypes place' (Dir sub) a2 = Inr (Dir sub2, b2)"
            and e2: "map_of es2 p = Some (Dir sub2)"
          by blast
        from Cons.IH [OF l1 l2] e1 e2 m1 m2 t1 t2 show ?thesis by simp
      qed
    qed
  qed
qed

subsection \<open>The root artifact\<close>

text \<open>
  Claim C6, as the code has it. The root artifact is five fixed reference lines, the
  first to the index of \<^verbatim>\<open>src\<close> and the other four to declarations kept elsewhere
  (\<^verbatim>\<open>ace\<close>, \<^verbatim>\<open>require\<close>, \<^verbatim>\<open>xterm\<close>, \<^verbatim>\<open>html-tag-js\<close>), an empty line, the block of the
  module \<^verbatim>\<open>acode\<close> with the export lines of the sorted names, and a last line feed.
\<close>

theorem root_index_format:
  "generateRootIndex collected =
     ''/// <reference path='' @ QUOTE # ''./src/index.d.ts'' @ QUOTE # '' />'' @ NL #
     ''/// <reference path='' @ QUOTE # ''./types/ace/index.d.ts'' @ QUOTE # '' />'' @ NL #
     ''/// <reference path='' @ QUOTE # ''./types/require.d.ts'' @ QUOTE # '' />'' @ NL #
     ''/// <reference path='' @ QUOTE # ''./types/xterm.d.ts'' @ QUOTE # '' />'' @ NL #
     ''/// <reference path='' @ QUOTE # ''./types/html-tag-js.d.ts'' @ QUOTE # '' />'' @ NL #
     NL #
     ''declare module '' @ QUOTE # ''acode'' @ QUOTE # '' {'' @ NL #
       join (map export_line (sortedTypes collected)) @ NL # ''}'' @ [NL]"
  by (simp add: generateRootIndex_def generateModuleExports_def rootRefs_def)

text \<open>
  Claim C6, as it is worded, counts three references besides the one to the index of
  \<^verbatim>\<open>src\<close>. The five lines are that one and four more.
\<close>

theorem root_refs_three_external_counterexample:
  "length rootRefs = 5
   \<and> hd rootRefs = ''/// <reference path='' @ QUOTE # ''./src/index.d.ts'' @ QUOTE # '' />''
   \<and> length (tl rootRefs) \<noteq> 3"
  by (simp add: rootRefs_def)

subsection \<open>The scenario of the specification\<close>



subsection \<open>The collected names\<close>

lemma set_add: "set (add x s) = insert x (set s)"
  by (auto simp: add_def)

lemma distinct_add: "distinct s \<Longrightarrow> distinct (add x s)"
  by (simp add: add_def)

lemma set_foldl_add: "set (foldl (\<lambda>collected name. add name collected) s names) = set s \<union> set names"
  by (induction names arbitrary: s) (auto simp: set_add)

lemma distinct_foldl_add: "distinct s \<Longrightarrow> distinct (foldl (\<lambda>collected name. add name collected) s names)"
  by (induction names arbitrary: s) (auto simp: distinct_add)

lemma set_extractTypesFromNamespace:
  "set (extractTypesFromNamespace content s) = set s \<union> set (matchAll True content)"
  by (simp add: extractTypesFromNamespace_def set_foldl_add)

lemma distinct_extractTypesFromNamespace:
  "distinct s \<Longrightarrow> distinct (extractTypesFromNamespace content s)"
  by (simp add: extractTypesFromNamespace_def distinct_foldl_add)

lemma linkTypes_collected:
  "linkTypes place t st = Inr (t', st') \<Longrightarrow>
     st' = foldl (\<lambda>s c. extractTypesFromNamespace c s) st (filter has_marker (scanned_files t))"
  and forEntries_collected:
  "forEntries place es refs st = Inr (es', refs', st') \<Longrightarrow>
     st' = foldl (\<lambda>s c. extractTypesFromNamespace c s) st (filter has_marker (scanned_entries es))"
proof (induction place t st and place es refs st arbitrary: t' st' and es' refs' st'
    rule: linkTypes_forEntries.induct)
  case (1 place content collectedTypes)
  then show ?case by simp
next
  case (2 place es collectedTypes)
  then show ?case by (auto split: sum.splits)
next
  case (3 place refs collectedTypes)
  then show ?case by simp
next
  case (4 place p sub es refs collectedTypes)
  from "4.prems" obtain n' st1 es1
    where l: "linkTypes place (Dir sub) collectedTypes = Inr (n', st1)"
      and f: "forEntries place es (refs @ [subdir_ref p]) st1 = Inr (es1, refs', st')"
    by (auto split: sum.splits simp del: linkTypes.simps)
  from "4.IH"(1) [OF l] "4.IH"(2) [OF l refl f]
  show ?case by simp
next
  case (5 place p content es refs collectedTypes)
  then show ?case by (auto split: sum.splits if_splits)
qed

lemma set_foldl_extract:
  "set (foldl (\<lambda>s c. extractTypesFromNamespace c s) st cs) = set st \<union> (\<Union>c\<in>set cs. set (matchAll True c))"
  by (induction cs arbitrary: st) (auto simp: set_extractTypesFromNamespace)

lemma distinct_foldl_extract:
  "distinct st \<Longrightarrow> distinct (foldl (\<lambda>s c. extractTypesFromNamespace c s) st cs)"
  by (induction cs arbitrary: st) (auto simp: distinct_extractTypesFromNamespace)

lemma linkTypes_distinct: "linkTypes place t st = Inr (t', st') \<Longrightarrow> distinct st \<Longrightarrow> distinct st'"
  using linkTypes_collected [of place t st t' st'] by (simp add: distinct_foldl_extract)

text \<open>
  Claim C5. The names a run ends with are those it started with and those of the files
  with a marker, taken file by file in the order of the walk: a file without a marker
  adds nothing, whatever its lines look like, and every name of the set was there before
  or is matched in a file that has a marker. Where no file has a marker, the set is as
  it was.
\<close>

theorem unmarked_files_add_nothing:
  assumes "linkTypes place t st = Inr (t', st')"
  shows "st' = foldl (\<lambda>s c. extractTypesFromNamespace c s) st (filter has_marker (scanned_files t))
    \<and> (\<forall>x\<in>set st'. x \<in> set st
          \<or> (\<exists>c\<in>set (scanned_files t). has_marker c \<and> x \<in> set (matchAll True c)))
    \<and> ((\<forall>c\<in>set (scanned_files t). \<not> has_marker c) \<longrightarrow> st' = st)"
proof -
  note eq = linkTypes_collected [OF assms]
  have "filter has_marker (scanned_files t) = []" if "\<forall>c\<in>set (scanned_files t). \<not> has_marker c"
    using that by (simp add: filter_empty_conv)
  with eq have "(\<forall>c\<in>set (scanned_files t). \<not> has_marker c) \<longrightarrow> st' = st"
    by auto
  with eq show ?thesis
    by (auto simp: set_foldl_extract)
qed

theorem unmarked_files_add_nothing_witness:
  "linkTypes by_name (Dir [(''plain.d.ts'', File (TAB # ''type Hidden = number;'')),
                   (''ns.d.ts'', File (''namespace Acode {'' @ NL # TAB # ''type Foo = string;''))]) []
     = Inr (Dir [(''index.d.ts'', File (file_ref ''plain.d.ts'' @ NL # file_ref ''ns.d.ts'' @ [NL])),
                 (''plain.d.ts'', File (TAB # ''type Hidden = number;'')),
                 (''ns.d.ts'', File (''namespace Acode {'' @ NL # TAB # ''type Foo = string;''))],
            [''Foo''])
   \<and> [''Foo''] = foldl (\<lambda>s c. extractTypesFromNamespace c s) []
        (filter has_marker (scanned_files
           (Dir [(''plain.d.ts'', File (TAB # ''type Hidden = number;'')),
                 (''ns.d.ts'', File (''namespace Acode {'' @ NL # TAB # ''type Foo = string;''))])))
   \<and> matchAll True (TAB # ''type Hidden = number;'') = [''Hidden'']"
proof -
  have run: "linkTypes by_name (Dir [(''plain.d.ts'', File (TAB # ''type Hidden = number;'')),
                   (''ns.d.ts'', File (''namespace Acode {'' @ NL # TAB # ''type Foo = string;''))]) []
     = Inr (Dir [(''index.d.ts'', File (file_ref ''plain.d.ts'' @ NL # file_ref ''ns.d.ts'' @ [NL])),
                 (''plain.d.ts'', File (TAB # ''type Hidden = number;'')),
                 (''ns.d.ts'', File (''namespace Acode {'' @ NL # TAB # ''type Foo = string;''))],
            [''Foo''])"
    by code_simp
  have "matchAll True (TAB # ''type Hidden = number;'') = [''Hidden'']"
    by code_simp
  with run unmarked_files_add_nothing [OF run] show ?thesis
    by blast
qed

subsection \<open>The export lines\<close>

lemma sorted_adjacent:
  fixes xs :: "string list"
  shows "sorted xs \<Longrightarrow> distinct xs \<Longrightarrow> \<forall>i. Suc i < length xs \<longrightarrow> xs ! i < xs ! Suc i"
  by (metis Suc_lessD lessI nth_eq_iff_index_eq order_le_less sorted_iff_nth_Suc n_not_Suc_n)

lemma export_line_inj:
  "TAB # ''export type '' @ t @ '' = Acode.'' @ t @ '';''
     = TAB # ''export type '' @ u @ '' = Acode.'' @ u @ '';'' \<Longrightarrow> t = u"
proof -
  assume a: "TAB # ''export type '' @ t @ '' = Acode.'' @ t @ '';''
     = TAB # ''export type '' @ u @ '' = Acode.'' @ u @ '';''"
  then have "length (TAB # ''export type '' @ t @ '' = Acode.'' @ t @ '';'')
     = length (TAB # ''export type '' @ u @ '' = Acode.'' @ u @ '';'')"
    by (rule arg_cong)
  then have "length t = length u" by simp
  moreover from a have "t @ '' = Acode.'' @ t @ '';'' = u @ '' = Acode.'' @ u @ '';''"
    by simp
  ultimately show ?thesis by simp
qed

text \<open>
  Claim C4. In the root artifact that a run writes, the block of the module has one
  line \<^verbatim>\<open>export type N = Acode.N;\<close> behind a tab for every collected name \<^verbatim>\<open>N\<close> and no
  other line: the lines are as many as the names, no two are the same, and their names
  go up in the order of their code units (the order of \<^typ>\<open>string\<close> is the
  lexicographic one over the codes of the characters, upper case before lower case),
  each name strictly below the next.
\<close>

theorem export_lines_sorted:
  assumes s: "map_of root ''src'' = Some src"
    and l: "linkTypes place src [] = Inr (src', collected)"
    and m: "main place root = Inr root'"
  shows "content_at (Dir root') [''index.d.ts'']
           = Some (join rootRefs @ NL # NL #
               ''declare module '' @ QUOTE # ''acode'' @ QUOTE # '' {'' @ NL #
                 join (map (\<lambda>t. TAB # ''export type '' @ t @ '' = Acode.'' @ t @ '';'')
                        (sortedTypes collected)) @ NL # ''}'' @ [NL])
         \<and> generateModuleExports collected =
             ''declare module '' @ QUOTE # ''acode'' @ QUOTE # '' {'' @ NL #
               join (map (\<lambda>t. TAB # ''export type '' @ t @ '' = Acode.'' @ t @ '';'')
                      (sortedTypes collected)) @ NL # ''}''
         \<and> distinct (map (\<lambda>t. TAB # ''export type '' @ t @ '' = Acode.'' @ t @ '';'')
                      (sortedTypes collected))
         \<and> sorted (sortedTypes collected) \<and> distinct (sortedTypes collected)
         \<and> set (sortedTypes collected) = set collected
         \<and> length (sortedTypes collected) = length collected
         \<and> (\<forall>i. Suc i < length (sortedTypes collected)
               \<longrightarrow> sortedTypes collected ! i < sortedTypes collected ! Suc i)"
proof -
  have e: "export_line = (\<lambda>t. TAB # ''export type '' @ t @ '' = Acode.'' @ t @ '';'')"
    by (rule ext) (simp add: export_line_def)
  from linkTypes_distinct [OF l] have d: "distinct (sortedTypes collected)"
    by (simp add: sortedTypes_def)
  have so: "sorted (sortedTypes collected)"
    by (simp add: sortedTypes_def)
  have inj: "inj_on (\<lambda>t. TAB # ''export type '' @ t @ '' = Acode.'' @ t @ '';'') A" for A
    by (rule inj_onI) (rule export_line_inj)
  from d inj have dl: "distinct (map (\<lambda>t. TAB # ''export type '' @ t @ '' = Acode.'' @ t @ '';'')
      (sortedTypes collected))"
    by (simp add: distinct_map)
  from m s l have "writeFileSync place (AList.update ''src'' src' root) ''index.d.ts''
      (generateRootIndex collected) = Inr root'"
    by (simp add: main_def)
  from writeFileSync_map_of [OF this]
  have c: "content_at (Dir root') [''index.d.ts''] = Some (generateRootIndex collected)"
    by simp
  have g: "generateModuleExports collected =
             ''declare module '' @ QUOTE # ''acode'' @ QUOTE # '' {'' @ NL #
               join (map (\<lambda>t. TAB # ''export type '' @ t @ '' = Acode.'' @ t @ '';'')
                      (sortedTypes collected)) @ NL # ''}''"
    by (simp add: generateModuleExports_def e)
  have r: "generateRootIndex collected = join rootRefs @ NL # NL #
               ''declare module '' @ QUOTE # ''acode'' @ QUOTE # '' {'' @ NL #
                 join (map (\<lambda>t. TAB # ''export type '' @ t @ '' = Acode.'' @ t @ '';'')
                        (sortedTypes collected)) @ NL # ''}'' @ [NL]"
    by (simp add: generateRootIndex_def g)
  from sorted_adjacent [OF so d] d so dl c g r show ?thesis
    by (simp add: sortedTypes_def)
qed

theorem export_lines_sorted_witness:
  "map_of [(''src'', Dir [(''ns.d.ts'', File (''namespace Acode {'' @ NL # TAB # ''type Foo = string;'' @ NL #
                      TAB # ''interface Bar {}'' @ NL # TAB # ''type bar = Bar;''))])] ''src''
     = Some (Dir [(''ns.d.ts'', File (''namespace Acode {'' @ NL # TAB # ''type Foo = string;'' @ NL #
                      TAB # ''interface Bar {}'' @ NL # TAB # ''type bar = Bar;''))])
   \<and> linkTypes by_name (Dir [(''ns.d.ts'', File (''namespace Acode {'' @ NL # TAB # ''type Foo = string;'' @ NL #
                      TAB # ''interface Bar {}'' @ NL # TAB # ''type bar = Bar;''))]) []
     = Inr (Dir [(''index.d.ts'', File (file_ref ''ns.d.ts'' @ [NL])),
                 (''ns.d.ts'', File (''namespace Acode {'' @ NL # TAB # ''type Foo = string;'' @ NL #
                      TAB # ''interface Bar {}'' @ NL # TAB # ''type bar = Bar;''))],
            [''Foo'', ''Bar'', ''bar''])
   \<and> main by_name [(''src'', Dir [(''ns.d.ts'', File (''namespace Acode {'' @ NL # TAB # ''type Foo = string;'' @ NL #
                      TAB # ''interface Bar {}'' @ NL # TAB # ''type bar = Bar;''))])]
     = Inr [(''index.d.ts'', File (generateRootIndex [''Foo'', ''Bar'', ''bar''])),
            (''src'', Dir [(''index.d.ts'', File (file_ref ''ns.d.ts'' @ [NL])),
                 (''ns.d.ts'', File (''namespace Acode {'' @ NL # TAB # ''type Foo = string;'' @ NL #
                      TAB # ''interface Bar {}'' @ NL # TAB # ''type bar = Bar;''))])]
   \<and> content_at (Dir [(''index.d.ts'', File (generateRootIndex [''Foo'', ''Bar'', ''bar''])),
            (''src'', Dir [(''index.d.ts'', File (file_ref ''ns.d.ts'' @ [NL])),
                 (''ns.d.ts'', File (''namespace Acode {'' @ NL # TAB # ''type Foo = string;'' @ NL #
                      TAB # ''interface Bar {}'' @ NL # TAB # ''type bar = Bar;''))])]) [''index.d.ts'']
     = Some (join rootRefs @ NL # NL #
               ''declare module '' @ QUOTE # ''acode'' @ QUOTE # '' {'' @ NL #
                 TAB # ''export type Bar = Acode.Bar;'' @ NL #
                 TAB # ''export type Foo = Acode.Foo;'' @ NL #
                 TAB # ''export type bar = Acode.bar;'' @ NL # ''}'' @ [NL])
   \<and> sortedTypes [''Foo'', ''Bar'', ''bar''] = [''Bar'', ''Foo'', ''bar'']"
proof -
  let ?c = "''namespace Acode {'' @ NL # TAB # ''type Foo = string;'' @ NL #
                      TAB # ''interface Bar {}'' @ NL # TAB # ''type bar = Bar;''"
  have s: "map_of [(''src'', Dir [(''ns.d.ts'', File ?c)])] ''src'' = Some (Dir [(''ns.d.ts'', File ?c)])"
    by simp
  have l: "linkTypes by_name (Dir [(''ns.d.ts'', File ?c)]) []
     = Inr (Dir [(''index.d.ts'', File (file_ref ''ns.d.ts'' @ [NL])), (''ns.d.ts'', File ?c)],
            [''Foo'', ''Bar'', ''bar''])"
    by code_simp
  have m: "main by_name [(''src'', Dir [(''ns.d.ts'', File ?c)])]
     = Inr [(''index.d.ts'', File (generateRootIndex [''Foo'', ''Bar'', ''bar''])),
            (''src'', Dir [(''index.d.ts'', File (file_ref ''ns.d.ts'' @ [NL])), (''ns.d.ts'', File ?c)])]"
    by code_simp
  have st: "sortedTypes [''Foo'', ''Bar'', ''bar''] = [''Bar'', ''Foo'', ''bar'']"
    by code_simp
  from export_lines_sorted [OF s l m]
  have "content_at (Dir [(''index.d.ts'', File (generateRootIndex [''Foo'', ''Bar'', ''bar''])),
            (''src'', Dir [(''index.d.ts'', File (file_ref ''ns.d.ts'' @ [NL])), (''ns.d.ts'', File ?c)])])
          [''index.d.ts'']
     = Some (join rootRefs @ NL # NL #
               ''declare module '' @ QUOTE # ''acode'' @ QUOTE # '' {'' @ NL #
                 join (map (\<lambda>t. TAB # ''export type '' @ t @ '' = Acode.'' @ t @ '';'')
                        (sortedTypes [''Foo'', ''Bar'', ''bar''])) @ NL # ''}'' @ [NL])"
    by blast
  then have "content_at (Dir [(''index.d.ts'', File (generateRootIndex [''Foo'', ''Bar'', ''bar''])),
            (''src'', Dir [(''index.d.ts'', File (file_ref ''ns.d.ts'' @ [NL])), (''ns.d.ts'', File ?c)])])
          [''index.d.ts'']
     = Some (join rootRefs @ NL # NL #
               ''declare module '' @ QUOTE # ''acode'' @ QUOTE # '' {'' @ NL #
                 TAB # ''export type Bar = Acode.Bar;'' @ NL #
                 TAB # ''export type Foo = Acode.Foo;'' @ NL #
                 TAB # ''export type bar = Acode.bar;'' @ NL # ''}'' @ [NL])"
    unfolding st by simp
  with s l m st show ?thesis by blast
qed

subsection \<open>A second run\<close>

lemma forEntries_insert:
  "forEntries place es refs st = Inr (es, refs', st') \<Longrightarrow>
   forEntries place (take k es @ (''index.d.ts'', File data) # drop k es) refs st
     = Inr (take k es @ (''index.d.ts'', File data) # drop k es, refs', st')"
proof (induction es arbitrary: k refs st)
  case Nil
  then show ?case by simp
next
  case (Cons e es)
  show ?case
  proof (cases k)
    case 0
    with Cons.prems show ?thesis by simp
  next
    case (Suc k')
    obtain p n where e: "e = (p, n)" by (cases e)
    show ?thesis
    proof (cases n)
      case (File content)
      with Cons.prems e Suc show ?thesis
        by (auto split: if_splits sum.splits dest: Cons.IH [of _ _ k'])
    next
      case (Dir sub)
      with Cons.prems e obtain st1
        where l: "linkTypes place (Dir sub) st = Inr (n, st1)"
          and f: "forEntries place es (refs @ [subdir_ref p]) st1 = Inr (es, refs', st')"
        by (auto split: sum.splits simp del: linkTypes.simps)
      from Cons.IH [OF f, of k'] l Dir e Suc show ?thesis
        by (simp del: linkTypes.simps)
    qed
  qed
qed

lemma forEntries_update:
  "forEntries place es refs st = Inr (es, refs', st') \<Longrightarrow>
   map_of es ''index.d.ts'' = Some (File old) \<Longrightarrow>
   forEntries place (AList.update ''index.d.ts'' (File data) es) refs st
     = Inr (AList.update ''index.d.ts'' (File data) es, refs', st')"
proof (induction es arbitrary: refs st)
  case Nil
  then show ?case by simp
next
  case (Cons e es)
  obtain p n where e: "e = (p, n)" by (cases e)
  show ?case
  proof (cases n)
    case (File content)
    with Cons.prems e show ?thesis
      by (auto split: if_splits sum.splits dest: Cons.IH)
  next
    case (Dir sub)
    with Cons.prems e obtain st1
      where l: "linkTypes place (Dir sub) st = Inr (n, st1)"
        and f: "forEntries place es (refs @ [subdir_ref p]) st1 = Inr (es, refs', st')"
        and p: "p \<noteq> ''index.d.ts''"
        and m: "map_of es ''index.d.ts'' = Some (File old)"
      by (auto split: sum.splits if_splits simp del: linkTypes.simps)
    from Cons.IH [OF f m] l Dir e p show ?thesis
      by (simp del: linkTypes.simps)
  qed
qed

lemma forEntries_after_write:
  assumes f: "forEntries place' es refs st = Inr (es, refs', st')"
    and w: "writeFileSync place es ''index.d.ts'' data = Inr es'"
  shows "forEntries place' es' refs st = Inr (es', refs', st')"
proof (cases "map_of es ''index.d.ts''")
  case None
  with w have "es' = take (place ''index.d.ts'' es) es @ (''index.d.ts'', File data)
      # drop (place ''index.d.ts'' es) es"
    by (simp add: writeFileSync_def)
  with forEntries_insert [OF f] show ?thesis by simp
next
  case (Some n)
  with w obtain old where n: "n = File old" and es': "es' = AList.update ''index.d.ts'' (File data) es"
    by (auto simp: writeFileSync_def split: node.splits)
  from forEntries_update [OF f] Some n es' show ?thesis by simp
qed

lemma linkTypes_again:
  "linkTypes place t st = Inr (t', st') \<Longrightarrow> linkTypes place' t' st = Inr (t', st')"
  and forEntries_again:
  "forEntries place es refs st = Inr (es', refs', st') \<Longrightarrow>
   forEntries place' es' refs st = Inr (es', refs', st')"
proof (induction place t st and place es refs st arbitrary: t' st' and es' refs' st'
    rule: linkTypes_forEntries.induct)
  case (1 place content collectedTypes)
  then show ?case by simp
next
  case (2 place es collectedTypes)
  from "2.prems" obtain es1 refs es2
    where f: "forEntries place es [] collectedTypes = Inr (es1, refs, st')"
      and w: "writeFileSync place es1 ''index.d.ts'' (join refs @ [NL]) = Inr es2"
      and t': "t' = Dir es2"
    by (auto split: sum.splits)
  from "2.IH" [OF f] have "forEntries place' es1 [] collectedTypes = Inr (es1, refs, st')" .
  from forEntries_after_write [OF this w] writeFileSync_again [OF w] t'
  show ?case by simp
next
  case (3 place refs collectedTypes)
  then show ?case by simp
next
  case (4 place p sub es refs collectedTypes)
  from "4.prems" obtain n' st1 es1
    where l: "linkTypes place (Dir sub) collectedTypes = Inr (n', st1)"
      and f: "forEntries place es (refs @ [subdir_ref p]) st1 = Inr (es1, refs', st')"
      and es': "es' = (p, n') # es1"
    by (auto split: sum.splits simp del: linkTypes.simps)
  from "4.IH"(1) [OF l] have l': "linkTypes place' n' collectedTypes = Inr (n', st1)" .
  from "4.IH"(2) [OF l refl f]
  have f': "forEntries place' es1 (refs @ [subdir_ref p]) st1 = Inr (es1, refs', st')" .
  from linkTypes_Dir [OF l] obtain sub' where n': "n' = Dir sub'" by blast
  from l' f' es' n' show ?case by (simp del: linkTypes.simps)
next
  case (5 place p content es refs collectedTypes)
  then show ?case by (auto split: sum.splits if_splits)
qed

text \<open>
  Claim C3. Take a run that returns, on any file system. The next run on the tree it
  leaves, on any file system, returns that same tree: every index and the root artifact
  are written again with the text they have, wherever the listings have the generated
  files. And a run from the same tree on another file system returns too, and leaves the
  same text at every path: what is written depends on the tree alone.
\<close>

theorem second_run_same_artifacts:
  assumes "main place root = Inr root'"
  shows "main place' root' = Inr root'
    \<and> (\<exists>r. main place' root = Inr r
          \<and> (\<forall>path. content_at (Dir r) path = content_at (Dir root') path))"
proof
  from assms obtain src src' collected
    where s: "map_of root ''src'' = Some src"
      and l: "linkTypes place src [] = Inr (src', collected)"
      and w: "writeFileSync place (AList.update ''src'' src' root) ''index.d.ts''
                (generateRootIndex collected) = Inr root'"
    by (auto simp: main_def split: option.splits sum.splits)
  from writeFileSync_map_of_other [OF w, of "''src''"]
  have s': "map_of root' ''src'' = Some src'"
    by (simp add: update_conv')
  then have u: "AList.update ''src'' src' root' = root'"
    by (rule update_triv)
  from s' linkTypes_again [OF l] u writeFileSync_again [OF w]
  show "main place' root' = Inr root'"
    by (simp add: main_def)
  from linkTypes_any_place [OF l] obtain src2
    where l2: "linkTypes place' src [] = Inr (src2, collected)"
    by blast
  from writeFileSync_not_Dir [OF w]
  have "\<not> (\<exists>sub. map_of (AList.update ''src'' src2 root) ''index.d.ts'' = Some (Dir sub))"
    by (simp add: update_conv')
  from writeFileSync_succeeds [OF this] obtain r
    where w2: "writeFileSync place' (AList.update ''src'' src2 root) ''index.d.ts''
                 (generateRootIndex collected) = Inr r"
    by blast
  with s l2 have m2: "main place' root = Inr r"
    by (simp add: main_def)
  have "content_at (Dir r) path = content_at (Dir root') path" for path
  proof (cases path)
    case Nil
    then show ?thesis by simp
  next
    case (Cons p rest)
    show ?thesis
    proof (cases "p = ''index.d.ts''")
      case True
      with writeFileSync_map_of [OF w] writeFileSync_map_of [OF w2] Cons
      show ?thesis by simp
    next
      case False
      note m = writeFileSync_map_of_other [OF w False] writeFileSync_map_of_other [OF w2 False]
      show ?thesis
      proof (cases "p = ''src''")
        case True
        with m Cons linkTypes_same_contents [OF l2 l, of rest] show ?thesis
          by (simp add: update_conv')
      next
        case False
        with m Cons show ?thesis
          by (simp add: update_conv')
      qed
    qed
  qed
  with m2 show "\<exists>r. main place' root = Inr r
      \<and> (\<forall>path. content_at (Dir r) path = content_at (Dir root') path)"
    by blast
qed

theorem second_run_same_artifacts_witness:
  "main by_name [(''src'', Dir [(''a.ts'', File []),
                        (''ns.d.ts'', File (''namespace Acode {'' @ NL # TAB # ''type Foo = string;'')),
                        (''sub'', Dir [])])]
     = Inr [(''index.d.ts'', File (generateRootIndex [''Foo''])),
            (''src'', Dir [(''a.ts'', File []),
                           (''index.d.ts'', File (file_ref ''a.ts'' @ NL # file_ref ''ns.d.ts'' @ NL #
                                                   subdir_ref ''sub'' @ [NL])),
                           (''ns.d.ts'', File (''namespace Acode {'' @ NL # TAB # ''type Foo = string;'')),
                           (''sub'', Dir [(''index.d.ts'', File [NL])])])]
   \<and> main (\<lambda>name es. length es)
        [(''index.d.ts'', File (generateRootIndex [''Foo''])),
         (''src'', Dir [(''a.ts'', File []),
                        (''index.d.ts'', File (file_ref ''a.ts'' @ NL # file_ref ''ns.d.ts'' @ NL #
                                                subdir_ref ''sub'' @ [NL])),
                        (''ns.d.ts'', File (''namespace Acode {'' @ NL # TAB # ''type Foo = string;'')),
                        (''sub'', Dir [(''index.d.ts'', File [NL])])])]
     = Inr [(''index.d.ts'', File (generateRootIndex [''Foo''])),
            (''src'', Dir [(''a.ts'', File []),
                           (''index.d.ts'', File (file_ref ''a.ts'' @ NL # file_ref ''ns.d.ts'' @ NL #
                                                   subdir_ref ''sub'' @ [NL])),
                           (''ns.d.ts'', File (''namespace Acode {'' @ NL # TAB # ''type Foo = string;'')),
                           (''sub'', Dir [(''index.d.ts'', File [NL])])])]
   \<and> (\<exists>r. main (\<lambda>name es. length es)
             [(''src'', Dir [(''a.ts'', File []),
                        (''ns.d.ts'', File (''namespace Acode {'' @ NL # TAB # ''type Foo = string;'')),
                        (''sub'', Dir [])])] = Inr r
          \<and> content_at (Dir r) [''src'', ''index.d.ts'']
              = Some (file_ref ''a.ts'' @ NL # file_ref ''ns.d.ts'' @ NL # subdir_ref ''sub'' @ [NL]))"
proof -
  let ?root = "[(''src'', Dir [(''a.ts'', File []),
                        (''ns.d.ts'', File (''namespace Acode {'' @ NL # TAB # ''type Foo = string;'')),
                        (''sub'', Dir [])])]"
  let ?root' = "[(''index.d.ts'', File (generateRootIndex [''Foo''])),
            (''src'', Dir [(''a.ts'', File []),
                           (''index.d.ts'', File (file_ref ''a.ts'' @ NL # file_ref ''ns.d.ts'' @ NL #
                                                   subdir_ref ''sub'' @ [NL])),
                           (''ns.d.ts'', File (''namespace Acode {'' @ NL # TAB # ''type Foo = string;'')),
                           (''sub'', Dir [(''index.d.ts'', File [NL])])])]"
  have run: "main by_name ?root = Inr ?root'"
    by code_simp
  have c: "content_at (Dir ?root') [''src'', ''index.d.ts'']
      = Some (file_ref ''a.ts'' @ NL # file_ref ''ns.d.ts'' @ NL # subdir_ref ''sub'' @ [NL])"
    by simp
  from second_run_same_artifacts [OF run, of "\<lambda>name es. length es"] obtain r
    where again: "main (\<lambda>name es. length es) ?root' = Inr ?root'"
      and other: "main (\<lambda>name es. length es) ?root = Inr r"
      and same: "content_at (Dir r) [''src'', ''index.d.ts'']
                   = content_at (Dir ?root') [''src'', ''index.d.ts'']"
    by blast
  from same c have "content_at (Dir r) [''src'', ''index.d.ts'']
      = Some (file_ref ''a.ts'' @ NL # file_ref ''ns.d.ts'' @ NL # subdir_ref ''sub'' @ [NL])"
    by simp
  with run again other show ?thesis by blast
qed

subsection \<open>The names that the regular expression finds\<close>

lemma word_not_space: "is_word c \<Longrightarrow> \<not> is_space c"
  by (auto simp: is_word_def is_space_def)

lemma line_terminator_space: "is_line_terminator c \<Longrightarrow> is_space c"
  by (auto simp: is_line_terminator_def is_space_def)

lemma line_terminator_not_word: "is_line_terminator c \<Longrightarrow> \<not> is_word c"
  by (auto simp: is_line_terminator_def is_word_def)

lemma keyword_chars:
  "kw = ''interface'' \<or> kw = ''type'' \<Longrightarrow> c \<in> set kw \<Longrightarrow> is_word c"
  by (auto simp: is_word_def)

lemma keyword_append:
  "kw = ''interface'' \<or> kw = ''type'' \<Longrightarrow> keyword (kw @ s) = Some s"
  by (auto simp: keyword_def)

lemma keyword_Some:
  "keyword s = Some s2 \<Longrightarrow> \<exists>kw. (kw = ''interface'' \<or> kw = ''type'') \<and> s = kw @ s2"
  by (auto simp: keyword_def prefix_def split: if_splits)

lemma match_here_shape:
  assumes kw: "kw = ''interface'' \<or> kw = ''type''"
    and ws: "ws \<noteq> []" "\<forall>c\<in>set ws. is_space c"
    and name: "name \<noteq> []" "\<forall>c\<in>set name. is_word c"
    and post: "post = [] \<or> \<not> is_word (hd post)"
  shows "match_here (TAB # kw @ ws @ name @ post) = Some (name, post)"
proof -
  from name obtain n ns where n: "name = n # ns" "is_word n"
    by (cases name) auto
  have d1: "dropWhile is_space (ws @ name @ post) = name @ post"
    using ws(2) n by (simp add: dropWhile_append2 word_not_space)
  have t: "takeWhile is_word post = []"
    using post by (cases post) auto
  have t1: "takeWhile is_word (name @ post) = name"
    using name(2) t by (simp add: takeWhile_append2)
  have d: "dropWhile is_word post = post"
    using post by (cases post) auto
  have d2: "dropWhile is_word (name @ post) = post"
    using name(2) d by (simp add: dropWhile_append2)
  have "name @ post \<noteq> ws @ name @ post"
    using ws(1) by simp
  then show ?thesis
    by (simp add: match_here_def keyword_append [OF kw] d1 t1 d2 name(1))
qed

lemma match_here_shorter: "match_here s = Some (n, r) \<Longrightarrow> length r < length s"
proof -
  assume "match_here s = Some (n, r)"
  then obtain s1 s2 where s: "s = TAB # s1" and k: "keyword s1 = Some s2"
    and r: "r = dropWhile is_word (dropWhile is_space s2)"
    by (auto simp: match_here_def Let_def split: list.splits if_splits option.splits)
  from keyword_Some [OF k] have "length s2 \<le> length s1" by auto
  moreover have "length r \<le> length s2"
    unfolding r by (rule order_trans [OF length_dropWhile_le length_dropWhile_le])
  ultimately show ?thesis using s by simp
qed

lemma keyword_append_line:
  assumes ne: "s1 \<noteq> []" and lt: "is_line_terminator (last s1)"
  shows "keyword (s1 @ L) = map_option (\<lambda>s2. s2 @ L) (keyword s1)"
proof -
  have p: "prefix kw (s1 @ L) \<longleftrightarrow> prefix kw s1" if kw: "kw = ''interface'' \<or> kw = ''type''" for kw
  proof
    assume a: "prefix kw (s1 @ L)"
    show "prefix kw s1"
    proof (rule ccontr)
      assume "\<not> prefix kw s1"
      with a obtain us where "kw = s1 @ us"
        by (auto simp: prefix_append)
      with ne have "last s1 \<in> set kw" by simp
      from keyword_chars [OF kw this] lt show False
        by (simp add: line_terminator_not_word)
    qed
  next
    assume "prefix kw s1"
    then show "prefix kw (s1 @ L)" by (rule prefix_prefix)
  qed
  show ?thesis
  proof (cases "prefix ''interface'' s1")
    case True
    then obtain z where "s1 = ''interface'' @ z" by (auto simp: prefix_def)
    then show ?thesis by (simp add: keyword_def)
  next
    case False
    note i = this
    show ?thesis
    proof (cases "prefix ''type'' s1")
      case True
      then obtain z where "s1 = ''type'' @ z" by (auto simp: prefix_def)
      then show ?thesis by (simp add: keyword_def)
    next
      case False
      with i p [of "''interface''"] p [of "''type''"] show ?thesis
        by (simp add: keyword_def)
    qed
  qed
qed

lemma bare_keyword_no_match: "bare_keyword s \<Longrightarrow> match_here s = None"
proof -
  assume "bare_keyword s"
  then obtain s1 s2 where s: "s = TAB # s1" and k: "keyword s1 = Some s2"
    and a: "list_all is_space s2"
    by (auto simp: bare_keyword_def split: list.splits option.splits)
  from a have d: "dropWhile is_space s2 = []"
    by (simp add: list_all_iff)
  show ?thesis
    by (simp add: match_here_def Let_def s k d)
qed

lemma match_here_append:
  assumes ne: "pre \<noteq> []" and lt: "is_line_terminator (last pre)"
    and nb: "\<not> bare_keyword pre"
  shows "match_here (pre @ L) = map_option (\<lambda>(n, r). (n, r @ L)) (match_here pre)
    \<and> (\<forall>n r. match_here pre = Some (n, r) \<longrightarrow> r \<noteq> [] \<and> last r = last pre)"
proof -
  from ne obtain c s1 where pre: "pre = c # s1" by (cases pre) auto
  show ?thesis
  proof (cases "c = TAB")
    case False
    with pre show ?thesis by (simp add: match_here_def)
  next
    case True
    have s1: "s1 \<noteq> []"
      using lt pre True by (auto simp: is_line_terminator_def TAB_def)
    then have last1: "last s1 = last pre" "is_line_terminator (last s1)"
      using lt pre by simp_all
    note k = keyword_append_line [OF s1 last1(2), of L]
    show ?thesis
    proof (cases "keyword s1")
      case None
      with k pre True show ?thesis by (simp add: match_here_def)
    next
      case (Some s2)
      from keyword_Some [OF Some] obtain kw
        where kw: "kw = ''interface'' \<or> kw = ''type''" and s1': "s1 = kw @ s2"
        by blast
      from nb pre True Some have "\<not> list_all is_space s2"
        by (simp add: bare_keyword_def)
      then obtain x where x: "x \<in> set s2" "\<not> is_space x"
        by (auto simp: list_all_iff)
      let ?s3 = "dropWhile is_space s2"
      have d1: "dropWhile is_space (s2 @ L) = ?s3 @ L"
        using x by (rule dropWhile_append1)
      have s3: "?s3 \<noteq> []"
        using x by (auto simp: dropWhile_eq_Nil_conv)
      have s2: "s2 \<noteq> []" using x by auto
      then have "last s2 = last s1" using s1' by simp
      moreover have "last s2 = last ?s3"
        using s3 by (metis last_appendR takeWhile_dropWhile_id)
      ultimately have l3: "last ?s3 = last pre" "is_line_terminator (last ?s3)"
        using last1 by simp_all
      have y: "last ?s3 \<in> set ?s3" "\<not> is_word (last ?s3)"
        using s3 l3(2) by (simp_all only: last_in_set line_terminator_not_word not_False_eq_True)
      let ?r = "dropWhile is_word ?s3"
      have t: "takeWhile is_word (?s3 @ L) = takeWhile is_word ?s3"
        using y by (rule takeWhile_append1)
      have d2: "dropWhile is_word (?s3 @ L) = ?r @ L"
        using y by (rule dropWhile_append1)
      have r: "?r \<noteq> []"
        using y by (auto simp: dropWhile_eq_Nil_conv)
      then have lr: "last ?r = last pre"
        using l3(1) by (metis last_appendR takeWhile_dropWhile_id)
      have e: "?s3 @ L = s2 @ L \<longleftrightarrow> ?s3 = s2" by simp
      from pre True Some k d1 t d2 e r lr show ?thesis
        by (simp add: match_here_def Let_def)
    qed
  qed
qed

lemma matchAll_line:
  assumes kw: "kw = ''interface'' \<or> kw = ''type''"
    and ws: "ws \<noteq> []" "\<forall>c\<in>set ws. is_space c"
    and name: "name \<noteq> []" "\<forall>c\<in>set name. is_word c"
    and post: "post = [] \<or> \<not> is_word (hd post)"
  shows "(pre = [] \<longrightarrow> b) \<Longrightarrow> (pre \<noteq> [] \<longrightarrow> is_line_terminator (last pre)) \<Longrightarrow>
         \<not> pending b pre \<Longrightarrow>
         matchAll b (pre @ TAB # kw @ ws @ name @ post)
           = matchAll b pre @ name # matchAll False post"
proof (induction "length pre" arbitrary: pre b rule: less_induct)
  case less
  let ?L = "TAB # kw @ ws @ name @ post"
  note shape = match_here_shape [OF kw ws name post]
  show ?case
  proof (cases pre)
    case Nil
    with less.prems(1) shape show ?thesis by simp
  next
    case (Cons c cs)
    then have ne: "pre \<noteq> []" by simp
    with less.prems(2) have lt: "is_line_terminator (last pre)" by simp
    have nb: "\<not> (b \<and> bare_keyword pre)"
    proof
      assume a: "b \<and> bare_keyword pre"
      with bare_keyword_no_match [of pre] have "pending b pre"
        unfolding Cons by simp
      with less.prems(3) show False by simp
    qed
    show ?thesis
    proof (cases "if b then match_here pre else None")
      case None
      have "(if b then match_here (pre @ ?L) else None) = None"
      proof (cases b)
        case True
        with nb have "\<not> bare_keyword pre" by simp
        from match_here_append [OF ne lt this, of ?L] None True show ?thesis by simp
      next
        case False
        then show ?thesis by simp
      qed
      then have eq: "matchAll b (pre @ ?L) = matchAll (is_line_terminator c) (cs @ ?L)"
        unfolding Cons by (auto split: if_splits)
      from None have eq': "matchAll b pre = matchAll (is_line_terminator c) cs"
        unfolding Cons by (auto split: if_splits)
      from None less.prems(3) have np: "\<not> pending (is_line_terminator c) cs"
        unfolding Cons by (auto split: if_splits)
      have "matchAll (is_line_terminator c) (cs @ ?L)
          = matchAll (is_line_terminator c) cs @ name # matchAll False post"
      proof (rule less.hyps)
        show "length cs < length pre" using Cons by simp
        show "cs = [] \<longrightarrow> is_line_terminator c"
          using lt Cons by auto
        show "cs \<noteq> [] \<longrightarrow> is_line_terminator (last cs)"
          using lt Cons by auto
        show "\<not> pending (is_line_terminator c) cs" by (rule np)
      qed
      with eq eq' show ?thesis by simp
    next
      case (Some x)
      obtain n r where x: "x = (n, r)" by (cases x)
      with Some have b: b and m: "match_here pre = Some (n, r)"
        by (auto split: if_splits)
      from nb b have "\<not> bare_keyword pre" by simp
      from match_here_append [OF ne lt this, of ?L] m
      have m': "match_here (pre @ ?L) = Some (n, r @ ?L)" and r: "r \<noteq> []" "last r = last pre"
        by simp_all
      from m' b have eq: "matchAll b (pre @ ?L) = n # matchAll False (r @ ?L)"
        unfolding Cons by simp
      from m b have eq': "matchAll b pre = n # matchAll False r"
        unfolding Cons by simp
      from m b less.prems(3) have np: "\<not> pending False r"
        unfolding Cons by simp
      have "matchAll False (r @ ?L) = matchAll False r @ name # matchAll False post"
      proof (rule less.hyps)
        show "length r < length pre" by (rule match_here_shorter [OF m])
        show "r = [] \<longrightarrow> False" using r by simp
        show "r \<noteq> [] \<longrightarrow> is_line_terminator (last r)" using r lt by simp
        show "\<not> pending False r" by (rule np)
      qed
      with eq eq' show ?thesis by simp
    qed
  qed
qed

lemma space_no_keyword: "list_all is_space s \<Longrightarrow> keyword s = None"
  by (cases s) (auto simp: keyword_def is_space_def)

lemma space_no_match: "list_all is_space s \<Longrightarrow> matchAll b s = []"
proof (induction s arbitrary: b)
  case Nil
  then show ?case by simp
next
  case (Cons c cs)
  then have "keyword cs = None" by (simp add: space_no_keyword)
  then have "match_here (c # cs) = None" by (simp add: match_here_def)
  with Cons show ?case by simp
qed

lemma matchAll_keyword:
  "kw = ''interface'' \<or> kw = ''type'' \<Longrightarrow> matchAll False (kw @ s) = matchAll False s"
  by (auto simp: is_line_terminator_def)

lemma bare_keyword_no_matches: "bare_keyword s \<Longrightarrow> matchAll b s = []"
proof -
  assume a: "bare_keyword s"
  then obtain s1 s2 where s: "s = TAB # s1" and k: "keyword s1 = Some s2"
    and sp: "list_all is_space s2"
    by (auto simp: bare_keyword_def split: list.splits option.splits)
  from keyword_Some [OF k] obtain kw
    where kw: "kw = ''interface'' \<or> kw = ''type''" and s1: "s1 = kw @ s2"
    by blast
  from bare_keyword_no_match [OF a] s
  have "matchAll b s = matchAll (is_line_terminator TAB) s1" by simp
  also have "\<dots> = matchAll False (kw @ s2)"
    by (simp add: s1 is_line_terminator_def TAB_def)
  also have "\<dots> = []"
    by (simp add: matchAll_keyword [OF kw] space_no_match [OF sp])
  finally show ?thesis .
qed

lemma bare_keyword_swallows:
  assumes bare: "bare_keyword pre" and lt: "is_line_terminator (last pre)"
    and kw: "kw = ''interface'' \<or> kw = ''type''"
    and ws: "ws \<noteq> []" "\<forall>c\<in>set ws. is_space c"
  shows "match_here (pre @ TAB # kw @ ws @ rest) = Some (kw, ws @ rest)"
proof -
  let ?L = "TAB # kw @ ws @ rest"
  from bare obtain s1 s2 where pre: "pre = TAB # s1" and k: "keyword s1 = Some s2"
    and sp: "list_all is_space s2"
    by (auto simp: bare_keyword_def split: list.splits option.splits)
  have s1: "s1 \<noteq> []"
    using lt pre by (auto simp: is_line_terminator_def TAB_def)
  then have "is_line_terminator (last s1)" using lt pre by simp
  from keyword_append_line [OF s1 this, of ?L] k
  have k': "keyword (s1 @ ?L) = Some (s2 @ ?L)" by simp
  from ws obtain w ws' where w: "ws = w # ws'" "is_space w"
    by (cases ws) auto
  have "dropWhile is_space (s2 @ ?L) = dropWhile is_space ?L"
    by (rule dropWhile_append2) (use sp in \<open>auto simp: list_all_iff\<close>)
  also have "\<dots> = kw @ ws @ rest"
    using kw by (auto simp: is_space_def TAB_def)
  finally have d1: "dropWhile is_space (s2 @ ?L) = kw @ ws @ rest" .
  have wn: "\<not> is_word w"
    using w(2) word_not_space by blast
  have t: "takeWhile is_word (kw @ ws @ rest) = kw"
    using keyword_chars [OF kw] wn w(1) by (simp add: takeWhile_append2)
  have d2: "dropWhile is_word (kw @ ws @ rest) = ws @ rest"
    using keyword_chars [OF kw] wn w(1) by (simp add: dropWhile_append2)
  have "length (kw @ ws @ rest) \<noteq> length (s2 @ ?L)" by simp
  then have ne: "kw @ ws @ rest \<noteq> s2 @ ?L" by metis
  have "kw \<noteq> []" using kw by auto
  with pre k' d1 t d2 ne show ?thesis
    by (simp add: match_here_def Let_def)
qed

lemma matchAll_swallowed:
  assumes kw: "kw = ''interface'' \<or> kw = ''type''"
    and ws: "ws \<noteq> []" "\<forall>c\<in>set ws. is_space c"
  shows "(pre \<noteq> [] \<longrightarrow> is_line_terminator (last pre)) \<Longrightarrow> pending b pre \<Longrightarrow>
         matchAll b (pre @ TAB # kw @ ws @ rest) = matchAll b pre @ kw # matchAll False (ws @ rest)"
proof (induction "length pre" arbitrary: pre b rule: less_induct)
  case less
  let ?L = "TAB # kw @ ws @ rest"
  from less.prems(2) obtain c cs where Cons: "pre = c # cs"
    by (cases pre) auto
  then have ne: "pre \<noteq> []" by simp
  with less.prems(1) have lt: "is_line_terminator (last pre)" by simp
  show ?case
  proof (cases "b \<and> bare_keyword pre")
    case True
    from bare_keyword_swallows [OF _ lt kw ws, of rest] True
    have "matchAll b (pre @ ?L) = kw # matchAll False (ws @ rest)"
      unfolding Cons by simp
    with bare_keyword_no_matches [of pre b] True show ?thesis by simp
  next
    case nb: False
    show ?thesis
    proof (cases "if b then match_here pre else None")
      case None
      have "(if b then match_here (pre @ ?L) else None) = None"
      proof (cases b)
        case True
        with nb have "\<not> bare_keyword pre" by simp
        from match_here_append [OF ne lt this, of ?L] None True show ?thesis by simp
      next
        case False
        then show ?thesis by simp
      qed
      then have eq: "matchAll b (pre @ ?L) = matchAll (is_line_terminator c) (cs @ ?L)"
        unfolding Cons by (auto split: if_splits)
      from None have eq': "matchAll b pre = matchAll (is_line_terminator c) cs"
        unfolding Cons by (auto split: if_splits)
      from None nb less.prems(2) have p: "pending (is_line_terminator c) cs"
        unfolding Cons by (auto split: if_splits)
      then have "cs \<noteq> []" by auto
      have "matchAll (is_line_terminator c) (cs @ ?L)
          = matchAll (is_line_terminator c) cs @ kw # matchAll False (ws @ rest)"
      proof (rule less.hyps)
        show "length cs < length pre" using Cons by simp
        show "cs \<noteq> [] \<longrightarrow> is_line_terminator (last cs)"
          using lt Cons by auto
        show "pending (is_line_terminator c) cs" by (rule p)
      qed
      with eq eq' show ?thesis by simp
    next
      case (Some x)
      obtain n r where x: "x = (n, r)" by (cases x)
      with Some have b: b and m: "match_here pre = Some (n, r)"
        by (auto split: if_splits)
      from nb b have "\<not> bare_keyword pre" by simp
      from match_here_append [OF ne lt this, of ?L] m
      have m': "match_here (pre @ ?L) = Some (n, r @ ?L)" and r: "r \<noteq> []" "last r = last pre"
        by simp_all
      from m' b have eq: "matchAll b (pre @ ?L) = n # matchAll False (r @ ?L)"
        unfolding Cons by simp
      from m b have eq': "matchAll b pre = n # matchAll False r"
        unfolding Cons by simp
      from m b less.prems(2) have p: "pending False r"
        unfolding Cons by simp
      have "matchAll False (r @ ?L) = matchAll False r @ kw # matchAll False (ws @ rest)"
      proof (rule less.hyps)
        show "length r < length pre" by (rule match_here_shorter [OF m])
        show "r \<noteq> [] \<longrightarrow> is_line_terminator (last r)" using r lt by simp
        show "pending False r" by (rule p)
      qed
      with eq eq' show ?thesis by simp
    qed
  qed
qed

lemma count_list_distinct: "distinct xs \<Longrightarrow> x \<in> set xs \<Longrightarrow> count_list xs x = 1"
  by (induction xs) auto

text \<open>
  Claim C2, as the code has it. Take a file that the run reads (a file not named
  \<^verbatim>\<open>index.d.ts\<close> or \<^verbatim>\<open>test.ts\<close>) and that has a marker, and in it a line that starts
  with a tab, the keyword \<^verbatim>\<open>interface\<close> or \<^verbatim>\<open>type\<close>, white space, and then a run of
  word characters (letters, digits and the underscore of ASCII) that ends at the end of
  the text or before a character of another kind. If the search does not come to the
  line inside an attempt that began before it, this run of word characters is among the
  names the run ends with, and it is there once, however many files declare it. If the
  search does come to the line inside such an attempt (the text before the line ends
  with a tab, a keyword and white space only, and the attempt at that tab is made), the
  match of this line is the one that began there: its name is the keyword of this line,
  and the search goes on behind that keyword.
\<close>

theorem declared_name_collected:
  assumes run: "linkTypes place t st = Inr (t', st')" and st: "distinct st"
    and scanned: "content \<in> set (scanned_files t)" and marker: "has_marker content"
    and line: "content = pre @ TAB # kw @ ws @ name @ post"
    and start: "pre = [] \<or> is_line_terminator (last pre)"
    and kw: "kw = ''interface'' \<or> kw = ''type''"
    and ws: "ws \<noteq> []" "\<forall>c\<in>set ws. is_space c"
    and name: "name \<noteq> []" "\<forall>c\<in>set name. is_word c"
    and post: "post = [] \<or> \<not> is_word (hd post)"
  shows "(\<not> pending True pre \<longrightarrow>
            matchAll True content = matchAll True pre @ name # matchAll False post
            \<and> name \<in> set st' \<and> count_list st' name = 1)
       \<and> (pending True pre \<longrightarrow>
            matchAll True content = matchAll True pre @ kw # matchAll False (ws @ name @ post)
            \<and> kw \<in> set st' \<and> count_list st' kw = 1)"
proof (intro conjI impI)
  have sub: "set (matchAll True content) \<subseteq> set st'"
    using scanned marker unfolding linkTypes_collected [OF run] set_foldl_extract by auto
  note once = count_list_distinct [OF linkTypes_distinct [OF run st]]
  {
    assume "\<not> pending True pre"
    then have "matchAll True (pre @ TAB # kw @ ws @ name @ post)
        = matchAll True pre @ name # matchAll False post"
      using start by (intro matchAll_line [OF kw ws name post]) auto
    then show eq: "matchAll True content = matchAll True pre @ name # matchAll False post"
      using line by simp
    with sub show "name \<in> set st'" by auto
    then show "count_list st' name = 1" by (rule once)
  }
  {
    assume "pending True pre"
    then have "matchAll True (pre @ TAB # kw @ ws @ (name @ post))
        = matchAll True pre @ kw # matchAll False (ws @ (name @ post))"
      using start by (intro matchAll_swallowed [OF kw ws]) auto
    then show eq: "matchAll True content
        = matchAll True pre @ kw # matchAll False (ws @ name @ post)"
      using line by simp
    with sub show "kw \<in> set st'" by auto
    then show "count_list st' kw = 1" by (rule once)
  }
qed

theorem declared_name_collected_witness:
  "linkTypes by_name
     (Dir [(''a.d.ts'', File (''namespace Acode {'' @ NL # ''x'' @ TAB # ''type'' @ NL #
                               TAB # ''type'' @ '' '' @ ''Foo'' @ '' = string;'')),
           (''b.d.ts'', File (''namespace Acode {'' @ NL # TAB # ''interface Foo {}''))]) []
     = Inr (Dir [(''a.d.ts'', File (''namespace Acode {'' @ NL # ''x'' @ TAB # ''type'' @ NL #
                               TAB # ''type'' @ '' '' @ ''Foo'' @ '' = string;'')),
                 (''b.d.ts'', File (''namespace Acode {'' @ NL # TAB # ''interface Foo {}'')),
                 (''index.d.ts'', File (file_ref ''a.d.ts'' @ NL # file_ref ''b.d.ts'' @ [NL]))],
            [''Foo''])
   \<and> has_marker (''namespace Acode {'' @ NL # ''x'' @ TAB # ''type'' @ NL #
                               TAB # ''type'' @ '' '' @ ''Foo'' @ '' = string;'')
   \<and> is_line_terminator (last (''namespace Acode {'' @ NL # ''x'' @ TAB # ''type'' @ [NL]))
   \<and> \<not> pending True (''namespace Acode {'' @ NL # ''x'' @ TAB # ''type'' @ [NL])
   \<and> ''Foo'' \<in> set [''Foo''] \<and> count_list [''Foo''] ''Foo'' = 1
   \<and> linkTypes by_name
       (Dir [(''c.d.ts'', File (''namespace Acode {'' @ NL # TAB # ''type'' @ NL #
                                 TAB # ''type'' @ '' '' @ ''X'' @ '' = 1;''))]) []
     = Inr (Dir [(''c.d.ts'', File (''namespace Acode {'' @ NL # TAB # ''type'' @ NL #
                                 TAB # ''type'' @ '' '' @ ''X'' @ '' = 1;'')),
                 (''index.d.ts'', File (file_ref ''c.d.ts'' @ [NL]))],
            [''type''])
   \<and> pending True (''namespace Acode {'' @ NL # TAB # ''type'' @ [NL])
   \<and> matchAll True (''namespace Acode {'' @ NL # TAB # ''type'' @ NL #
                                 TAB # ''type'' @ '' '' @ ''X'' @ '' = 1;'')
       = matchAll True (''namespace Acode {'' @ NL # TAB # ''type'' @ [NL])
           @ ''type'' # matchAll False ('' '' @ ''X'' @ '' = 1;'')"
proof -
  let ?pre = "''namespace Acode {'' @ NL # ''x'' @ TAB # ''type'' @ [NL]"
  let ?a = "''namespace Acode {'' @ NL # ''x'' @ TAB # ''type'' @ NL #
                               TAB # ''type'' @ '' '' @ ''Foo'' @ '' = string;''"
  let ?b = "''namespace Acode {'' @ NL # TAB # ''interface Foo {}''"
  let ?pre2 = "''namespace Acode {'' @ NL # TAB # ''type'' @ [NL]"
  let ?c = "''namespace Acode {'' @ NL # TAB # ''type'' @ NL #
                                 TAB # ''type'' @ '' '' @ ''X'' @ '' = 1;''"
  have run: "linkTypes by_name (Dir [(''a.d.ts'', File ?a), (''b.d.ts'', File ?b)]) []
     = Inr (Dir [(''a.d.ts'', File ?a), (''b.d.ts'', File ?b),
                 (''index.d.ts'', File (file_ref ''a.d.ts'' @ NL # file_ref ''b.d.ts'' @ [NL]))],
            [''Foo''])"
    by code_simp
  have marker: "has_marker ?a"
    by code_simp
  have start: "is_line_terminator (last ?pre)"
    by code_simp
  have free: "\<not> pending True ?pre"
    by code_simp
  have run2: "linkTypes by_name (Dir [(''c.d.ts'', File ?c)]) []
     = Inr (Dir [(''c.d.ts'', File ?c), (''index.d.ts'', File (file_ref ''c.d.ts'' @ [NL]))],
            [''type''])"
    by code_simp
  have marker2: "has_marker ?c"
    by code_simp
  have start2: "is_line_terminator (last ?pre2)"
    by code_simp
  have held: "pending True ?pre2"
    by code_simp
  have space: "\<forall>c\<in>set '' ''. is_space c"
    by (simp add: is_space_def)
  have word: "\<forall>c\<in>set ''Foo''. is_word c" "\<forall>c\<in>set ''X''. is_word c"
    by (simp_all add: is_word_def)
  have post: "'' = string;'' = [] \<or> \<not> is_word (hd '' = string;'')"
    "'' = 1;'' = [] \<or> \<not> is_word (hd '' = 1;'')"
    by (simp_all add: is_word_def)
  have s1: "?a \<in> set (scanned_files (Dir [(''a.d.ts'', File ?a), (''b.d.ts'', File ?b)]))"
    by simp
  have s2: "?c \<in> set (scanned_files (Dir [(''c.d.ts'', File ?c)]))"
    by simp
  have l1: "?a = ?pre @ TAB # ''type'' @ '' '' @ ''Foo'' @ '' = string;''"
    by simp
  have l2: "?c = ?pre2 @ TAB # ''type'' @ '' '' @ ''X'' @ '' = 1;''"
    by simp
  have d: "distinct ([] :: string list)" by simp
  have k: "''type'' = ''interface'' \<or> ''type'' = ''type''" by simp
  have n: "'' '' \<noteq> []" "''Foo'' \<noteq> []" "''X'' \<noteq> []" by simp_all
  from declared_name_collected [OF run d s1 marker l1 disjI2 [OF start] k n(1) space n(2) word(1) post(1)]
    free
  have a: "''Foo'' \<in> set [''Foo''] \<and> count_list [''Foo''] ''Foo'' = 1"
    by blast
  from declared_name_collected [OF run2 d s2 marker2 l2 disjI2 [OF start2] k n(1) space n(3) word(2) post(2)]
    held
  have b: "matchAll True ?c = matchAll True ?pre2 @ ''type'' # matchAll False ('' '' @ ''X'' @ '' = 1;'')"
    by blast
  from run marker start free a run2 held b show ?thesis
    by blast
qed

text \<open>
  Claim C2, as it is worded, holds of every identifier on such a line. After a line
  that is a tab and the keyword alone, the white space of the match runs over the line
  break, and the keyword of the next line is taken for the name: \<^verbatim>\<open>X\<close> is declared on
  the third line of the first file below and is not collected. And an identifier is
  taken as far as its word characters go: \<^verbatim>\<open>$Foo\<close> in the second file is not matched
  at all, and of \<^verbatim>\<open>A$B\<close> in the third the name is \<^verbatim>\<open>A\<close>.
\<close>

theorem declared_name_missed_counterexample:
  "has_marker (''namespace Acode {'' @ NL # TAB # ''type'' @ NL # TAB # ''type X = 1;'' @ NL # ''}'')
   \<and> collected_after (linkTypes by_name (Dir [(''a.d.ts'',
         File (''namespace Acode {'' @ NL # TAB # ''type'' @ NL # TAB # ''type X = 1;'' @ NL # ''}''))]) [])
       = [''type'']
   \<and> ''X'' \<notin> set (collected_after (linkTypes by_name (Dir [(''a.d.ts'',
         File (''namespace Acode {'' @ NL # TAB # ''type'' @ NL # TAB # ''type X = 1;'' @ NL # ''}''))]) []))
   \<and> has_marker (''namespace Acode {'' @ NL # TAB # ''interface $Foo {}'' @ NL # ''}'')
   \<and> collected_after (linkTypes by_name (Dir [(''b.d.ts'',
         File (''namespace Acode {'' @ NL # TAB # ''interface $Foo {}'' @ NL # ''}''))]) [])
       = []
   \<and> has_marker (''namespace Acode {'' @ NL # TAB # ''type A$B = 1;'' @ NL # ''}'')
   \<and> collected_after (linkTypes by_name (Dir [(''c.d.ts'',
         File (''namespace Acode {'' @ NL # TAB # ''type A$B = 1;'' @ NL # ''}''))]) [])
       = [''A'']"
  by code_simp

end
